theory Spec2Isabelle
  imports Complex_Main
begin

section \<open>JavaScript values as the dashboard receives them\<close>

text \<open>
  A JavaScript string is a sequence of UTF-16 code units; a code unit is modelled
  as a natural number, so that the character classes of the regular expressions
  (\<^verbatim>\<open>\s\<close>, the line terminators U+2028 and U+2029) are the ones of the language
  and not those of an 8-bit alphabet.  \<open>lit\<close> turns an ASCII literal of the
  source into such a string.
\<close>

type_synonym jsstr = "nat list"

definition lit :: "string \<Rightarrow> jsstr" where
  "lit s = map of_char s"

text \<open>
  The values that reach the components: what \<^verbatim>\<open>response.json()\<close> can
  produce (null, booleans, numbers, strings, arrays, objects) and
  \<^verbatim>\<open>undefined\<close>, which optional chaining and absent properties produce.
  A number is a double: not-a-number, an infinity (\<open>Infinity True\<close> the
  positive one) or a finite value, which is a rational.  An object is the list of its own
  properties in enumeration order, with distinct keys.
\<close>

datatype jsnum = NaN | Infinity bool | Fin rat

datatype jsval =
    JUndefined
  | JNull
  | JBool bool
  | JNum jsnum
  | JStr jsstr
  | JArr "jsval list"
  | JObj "(jsstr \<times> jsval) list"

datatype js_error = TypeError

text \<open>ToBoolean: what \<^verbatim>\<open>a && b\<close> and \<^verbatim>\<open>c ? x : y\<close> test.\<close>

fun truthy :: "jsval \<Rightarrow> bool" where
  "truthy JUndefined = False"
| "truthy JNull = False"
| "truthy (JBool b) = b"
| "truthy (JNum n) = (n \<noteq> NaN \<and> n \<noteq> Fin 0)"
| "truthy (JStr s) = (s \<noteq> [])"
| "truthy (JArr xs) = True"
| "truthy (JObj kvs) = True"


text \<open>
  Reading \<^verbatim>\<open>v.k\<close> for a property name \<open>k\<close> that no built-in prototype
  defines (every name the components read is one: chartData, pieData, COLORS,
  label, value, val, amount, count, trend, positive, change).  On undefined and
  null the read throws; on an
  object it is the own property or undefined; on every other value the lookup
  goes to the prototype, which has no such property.
\<close>

fun get_prop :: "jsval \<Rightarrow> jsstr \<Rightarrow> js_error + jsval" where
  "get_prop JUndefined k = Inl TypeError"
| "get_prop JNull k = Inl TypeError"
| "get_prop (JObj kvs) k = Inr (case map_of kvs k of Some v \<Rightarrow> v | None \<Rightarrow> JUndefined)"
| "get_prop v k = Inr JUndefined"

text \<open>The decimal digits of an array index, the property key \<^verbatim>\<open>xs[i]\<close> reads.\<close>

fun dec :: "nat \<Rightarrow> jsstr" where
  "dec n = (if n < 10 then [48 + n] else dec (n div 10) @ [48 + n mod 10])"


section \<open>data-visualization.tsx\<close>


definition pieData :: jsval where
  "pieData = JArr
    [JObj [(lit ''name'', JStr (lit ''Active Users'')), (lit ''value'', JNum (Fin 72))],
     JObj [(lit ''name'', JStr (lit ''Inactive'')), (lit ''value'', JNum (Fin 28))]]"


text \<open>
  \<^verbatim>\<open>(data && data.k) ? data.k : fallback\<close>: the three \<^verbatim>\<open>safe...\<close>
  constants of the component are this expression at chartData, pieData and
  COLORS.
\<close>

definition safe_or :: "jsval \<Rightarrow> jsstr \<Rightarrow> jsval \<Rightarrow> js_error + jsval" where
  "safe_or data k fallback =
     (if truthy data then
        (case get_prop data k of
           Inl e \<Rightarrow> Inl e
         | Inr v \<Rightarrow> if truthy v then get_prop data k else Inr fallback)
      else Inr fallback)"


definition safePieData :: "jsval \<Rightarrow> js_error + jsval" where
  "safePieData data = safe_or data (lit ''pieData'') pieData"







section \<open>ai-insights.tsx\<close>

subsection \<open>Character classes of the regular expressions\<close>

text \<open>
  The line terminators (where \<^verbatim>\<open>^\<close> and \<^verbatim>\<open>$\<close> match under the
  \<^verbatim>\<open>m\<close> flag, and what \<^verbatim>\<open>.\<close> does not match): LF, CR, U+2028, U+2029.
  \<^verbatim>\<open>\s\<close>, which is also what \<^verbatim>\<open>trim\<close> strips: the white space and the
  line terminators of the language.  \<^verbatim>\<open>\d\<close> is the ASCII digits.
\<close>

definition is_lt :: "nat \<Rightarrow> bool" where
  "is_lt c = (c = 10 \<or> c = 13 \<or> c = 8232 \<or> c = 8233)"

definition is_space :: "nat \<Rightarrow> bool" where
  "is_space c = (c = 9 \<or> c = 10 \<or> c = 11 \<or> c = 12 \<or> c = 13 \<or> c = 32 \<or> c = 160
     \<or> c = 5760 \<or> (8192 \<le> c \<and> c \<le> 8202) \<or> c = 8232 \<or> c = 8233 \<or> c = 8239
     \<or> c = 8287 \<or> c = 12288 \<or> c = 65279)"

definition is_digit :: "nat \<Rightarrow> bool" where
  "is_digit c = (48 \<le> c \<and> c \<le> 57)"

definition starts_with :: "jsstr \<Rightarrow> jsstr \<Rightarrow> bool" where
  "starts_with p s = (take (length p) s = p)"

text \<open>
  The rest of the current line, which a greedy \<^verbatim>\<open>(.*)$\<close> captures, and
  what follows it (empty, or starting with the line terminator).
\<close>

abbreviation rest_of_line :: "jsstr \<Rightarrow> jsstr" where
  "rest_of_line s \<equiv> takeWhile (\<lambda>x. \<not> is_lt x) s"

abbreviation after_line :: "jsstr \<Rightarrow> jsstr" where
  "after_line s \<equiv> dropWhile (\<lambda>x. \<not> is_lt x) s"

subsection \<open>The tags of the rewrite rules\<close>

definition h3_open :: jsstr where
  \<open>h3_open = lit ''<h3 class="text-lg font-bold mt-4 mb-2">''\<close>

definition h3_close :: jsstr where
  "h3_close = lit ''</h3>''"

definition h2_open :: jsstr where
  \<open>h2_open = lit ''<h2 class="text-xl font-bold mt-5 mb-3">''\<close>

definition h2_close :: jsstr where
  "h2_close = lit ''</h2>''"

definition h1_open :: jsstr where
  \<open>h1_open = lit ''<h1 class="text-2xl font-bold mt-6 mb-4">''\<close>

definition h1_close :: jsstr where
  "h1_close = lit ''</h1>''"

definition strong_open :: jsstr where
  "strong_open = lit ''<strong>''"

definition strong_close :: jsstr where
  "strong_close = lit ''</strong>''"

definition li_open :: jsstr where
  "li_open = lit ''<li>''"

definition li_close :: jsstr where
  "li_close = lit ''</li>''"

definition ul_open :: jsstr where
  \<open>ul_open = lit ''<ul class="list-disc ml-6 space-y-1">''\<close>

definition ul_close :: jsstr where
  "ul_close = lit ''</ul>''"

definition p_open :: jsstr where
  \<open>p_open = lit ''<p class="mb-3">''\<close>

definition p_close :: jsstr where
  "p_close = lit ''</p>''"

definition br :: jsstr where
  "br = lit ''<br/>''"

subsection \<open>escape\<close>

text \<open>\<^verbatim>\<open>s.replace(/c/g, r)\<close> for a single character \<open>c\<close>.\<close>

definition replace_char :: "nat \<Rightarrow> jsstr \<Rightarrow> jsstr \<Rightarrow> jsstr" where
  "replace_char c r s = concat (map (\<lambda>x. if x = c then r else [x]) s)"

text \<open>The three passes of \<^verbatim>\<open>escape\<close>, in the source's order: \<^verbatim>\<open>&\<close>, \<^verbatim>\<open><\<close>, \<^verbatim>\<open>>\<close>.\<close>

definition escape :: "jsstr \<Rightarrow> jsstr" where
  "escape s = replace_char 62 (lit ''&gt;'') (replace_char 60 (lit ''&lt;'')
     (replace_char 38 (lit ''&amp;'') s))"

subsection \<open>Headings\<close>

text \<open>
  \<^verbatim>\<open>html.replace(/^#{k}\s+(.*)$/gm, opn + "$1" + cls)\<close> for \<open>k\<close> hashes.
  \<open>bol\<close> says whether the position is the start of a line.  A match starts at
  the start of a line with \<open>k\<close> hashes and one white-space character; the
  greedy \<^verbatim>\<open>\s+\<close> takes the whole run of white space, line terminators
  included, \<^verbatim>\<open>(.*)\<close> takes the rest of the line reached, and \<^verbatim>\<open>$\<close> holds
  there, so nothing is given back.  The search goes on after the match, which
  ends before a line terminator or at the end of the text: not at the start of a
  line.  Where there is no match the character is copied.
\<close>

lemma heading_measure:
  assumes "drop k s \<noteq> []" "is_space (hd (drop k s))"
  shows "length (after_line (dropWhile is_space (drop k s))) < length s"
proof -
  obtain x xs where d: "drop k s = x # xs" and x: "is_space x"
    using assms by (cases "drop k s") auto
  have "length (after_line (dropWhile is_space (drop k s))) \<le> length (dropWhile is_space xs)"
    using d x by (simp add: length_dropWhile_le)
  also have "\<dots> \<le> length xs"
    by (rule length_dropWhile_le)
  also have "length xs < length (drop k s)"
    by (simp add: d)
  also have "\<dots> \<le> length s"
    by simp
  finally show ?thesis .
qed

function heading :: "nat \<Rightarrow> jsstr \<Rightarrow> jsstr \<Rightarrow> bool \<Rightarrow> jsstr \<Rightarrow> jsstr" where
  "heading k opn cls bol [] = []"
| "heading k opn cls bol (c # cs) =
     (if bol \<and> starts_with (replicate k 35) (c # cs) \<and> drop k (c # cs) \<noteq> []
         \<and> is_space (hd (drop k (c # cs)))
      then (let r = dropWhile is_space (drop k (c # cs))
            in opn @ rest_of_line r @ cls @ heading k opn cls False (after_line r))
      else c # heading k opn cls (is_lt c) cs)"
  by pat_completeness auto
termination
proof (relation "measure (\<lambda>(k, opn, cls, bol, s). length s)")
  fix k :: nat and opn cls :: jsstr and bol :: bool and c :: nat and cs r :: jsstr
  assume "bol \<and> starts_with (replicate k 35) (c # cs) \<and> drop k (c # cs) \<noteq> []
      \<and> is_space (hd (drop k (c # cs)))"
    and "r = dropWhile is_space (drop k (c # cs))"
  then show "((k, opn, cls, False, after_line r), k, opn, cls, bol, c # cs)
      \<in> measure (\<lambda>(k, opn, cls, bol, s). length s)"
    using heading_measure[of k "c # cs"] by simp
qed auto

subsection \<open>Bold\<close>

text \<open>
  \<^verbatim>\<open>html.replace(/\*\*(.*?)\*\*/g, "<strong>$1</strong>")\<close>.
  \<open>find_close\<close> is the lazy \<^verbatim>\<open>(.*?)\*\*\<close> after an opening pair of
  stars: at each position it first tries the closing pair, and otherwise takes
  one more character, which must not be a line terminator.  It returns the
  capture and the text after the closing pair.  An opening pair with no closing
  pair on its line is no match, and its first star is copied.
\<close>

fun find_close :: "jsstr \<Rightarrow> (jsstr \<times> jsstr) option" where
  "find_close [] = None"
| "find_close (c # cs) =
     (if starts_with [42, 42] (c # cs) then Some ([], drop 2 (c # cs))
      else if is_lt c then None
      else (case find_close cs of None \<Rightarrow> None | Some (cap, r) \<Rightarrow> Some (c # cap, r)))"

lemma find_close_length: "find_close s = Some (cap, r) \<Longrightarrow> length r < length s"
  by (induction s arbitrary: cap) (auto split: if_splits option.splits simp: less_Suc_eq)

function bold :: "jsstr \<Rightarrow> jsstr" where
  "bold [] = []"
| "bold (c # cs) =
     (if starts_with [42, 42] (c # cs) then
        (case find_close (drop 2 (c # cs)) of
           Some (cap, r) \<Rightarrow> strong_open @ cap @ strong_close @ bold r
         | None \<Rightarrow> c # bold cs)
      else c # bold cs)"
  by pat_completeness auto
termination
proof (relation "measure length")
  fix c :: nat and cs cap r :: jsstr and x :: "jsstr \<times> jsstr"
  assume "find_close (drop 2 (c # cs)) = Some x" "(cap, r) = x"
  then have "length r < length (drop 2 (c # cs))"
    by (auto dest: find_close_length)
  then show "(r, c # cs) \<in> measure length"
    by (cases cs) auto
qed auto

subsection \<open>List items\<close>

text \<open>
  \<^verbatim>\<open>html.replace(/^(?:- |\d+\. )(.*)$/gm, "<li>$1</li>")\<close>.
  \<open>li_marker\<close> is the length of the marker a line starts with: a dash and a
  space, or the whole run of digits (one at least) followed by a dot and a
  space.
\<close>

definition li_marker :: "jsstr \<Rightarrow> nat option" where
  "li_marker s =
     (if starts_with [45, 32] s then Some 2
      else (let n = length (takeWhile is_digit s)
            in if 0 < n \<and> starts_with [46, 32] (drop n s) then Some (n + 2) else None))"

lemma li_marker_pos: "li_marker s = Some n \<Longrightarrow> 0 < n"
  by (auto simp: li_marker_def Let_def split: if_splits)

function list_items :: "bool \<Rightarrow> jsstr \<Rightarrow> jsstr" where
  "list_items bol [] = []"
| "list_items bol (c # cs) =
     (case (if bol then li_marker (c # cs) else None) of
        Some n \<Rightarrow> li_open @ rest_of_line (drop n (c # cs)) @ li_close
                   @ list_items False (after_line (drop n (c # cs)))
      | None \<Rightarrow> c # list_items (is_lt c) cs)"
  by pat_completeness auto
termination
proof (relation "measure (\<lambda>(bol, s). length s)")
  fix bol :: bool and c :: nat and cs :: jsstr and n :: nat
  assume "(if bol then li_marker (c # cs) else None) = Some n"
  then have "0 < n" by (auto dest: li_marker_pos split: if_splits)
  moreover have "length (after_line (drop n (c # cs))) \<le> length (drop n (c # cs))"
    by (rule length_dropWhile_le)
  ultimately show "((False, after_line (drop n (c # cs))), bol, c # cs)
      \<in> measure (\<lambda>(bol, s). length s)"
    by (cases n) auto
qed auto

subsection \<open>Wrapping runs of list items\<close>

text \<open>
  \<^verbatim>\<open>html.replace(/(<li>.*<\/li>\n?)+/g, (m) => ul_open + m + ul_close)\<close>.
  \<open>last_occ p s\<close> is the start of the last occurrence of \<open>p\<close> in \<open>s\<close>.
  \<open>li_item\<close> is the length of one \<^verbatim>\<open><li>.*<\/li>\n?\<close> at the start of the
  text: the greedy \<^verbatim>\<open>.*\<close> runs to the end of the line and gives back to the
  last \<^verbatim>\<open></li>\<close> of the line, and a line feed that follows is taken.
  \<open>li_run\<close> is the length of the greedy repetition, 0 when there is no match.
\<close>

fun last_occ :: "jsstr \<Rightarrow> jsstr \<Rightarrow> nat option" where
  "last_occ pat [] = (if pat = [] then Some 0 else None)"
| "last_occ pat (c # cs) =
     (case last_occ pat cs of
        Some k \<Rightarrow> Some (Suc k)
      | None \<Rightarrow> if starts_with pat (c # cs) then Some 0 else None)"

definition li_item :: "jsstr \<Rightarrow> nat option" where
  "li_item s =
     (if starts_with li_open s then
        (case last_occ li_close (rest_of_line (drop (length li_open) s)) of
           None \<Rightarrow> None
         | Some k \<Rightarrow>
             (let n = length li_open + k + length li_close
              in Some (if n < length s \<and> s ! n = 10 then n + 1 else n)))
      else None)"

lemma li_item_pos: "li_item s = Some n \<Longrightarrow> 0 < n"
  by (auto simp: li_item_def Let_def li_open_def lit_def split: if_splits option.splits)

function li_run :: "jsstr \<Rightarrow> nat" where
  "li_run s = (case li_item s of None \<Rightarrow> 0 | Some n \<Rightarrow> n + li_run (drop n s))"
  by pat_completeness auto
termination
proof (relation "measure length")
  fix s :: jsstr and n :: nat
  assume n: "li_item s = Some n"
  then have "0 < n" by (rule li_item_pos)
  moreover from n have "s \<noteq> []"
    by (auto simp: li_item_def starts_with_def li_open_def lit_def split: if_splits)
  ultimately show "(drop n s, s) \<in> measure length" by simp
qed auto

declare li_run.simps [simp del]

function ul_wrap :: "jsstr \<Rightarrow> jsstr" where
  "ul_wrap [] = []"
| "ul_wrap (c # cs) =
     (if li_run (c # cs) = 0 then c # ul_wrap cs
      else ul_open @ take (li_run (c # cs)) (c # cs) @ ul_close
             @ ul_wrap (drop (li_run (c # cs)) (c # cs)))"
  by pat_completeness auto
termination
  by (relation "measure length") auto

subsection \<open>Paragraphs\<close>

text \<open>
  \<^verbatim>\<open>html.split(/\n\n+/)\<close>: the text between the runs of two or more line
  feeds; a run at the start or at the end leaves an empty block there.
\<close>

function split_blocks :: "jsstr \<Rightarrow> jsstr list" where
  "split_blocks [] = [[]]"
| "split_blocks (c # cs) =
     (if starts_with [10, 10] (c # cs) then [] # split_blocks (dropWhile (\<lambda>x. x = 10) cs)
      else (case split_blocks cs of [] \<Rightarrow> [[c]] | b # bs \<Rightarrow> (c # b) # bs))"
  by pat_completeness auto
termination
proof (relation "measure length")
  fix c :: nat and cs :: jsstr
  have "length (dropWhile (\<lambda>x. x = 10) cs) \<le> length cs"
    by (rule length_dropWhile_le)
  then show "(dropWhile (\<lambda>x. x = 10) cs, c # cs) \<in> measure length" by simp
qed auto

definition trim :: "jsstr \<Rightarrow> jsstr" where
  "trim s = rev (dropWhile is_space (rev (dropWhile is_space s)))"

text \<open>\<^verbatim>\<open>/^(<h\d|<ul|<li)/.test(t)\<close>.\<close>

definition block_start :: "jsstr \<Rightarrow> bool" where
  "block_start t = ((starts_with (lit ''<h'') t \<and> 2 < length t \<and> is_digit (t ! 2))
      \<or> starts_with (lit ''<ul'') t \<or> starts_with (lit ''<li'') t)"

text \<open>The function mapped over the blocks.\<close>

definition wrap_block :: "jsstr \<Rightarrow> jsstr" where
  "wrap_block block =
     (if block_start (trim block) then block
      else p_open @ replace_char 10 br block @ p_close)"

subsection \<open>markdownToHtml and the component\<close>

text \<open>
  The argument is a string or absent (\<open>None\<close>: undefined or null, which
  \<^verbatim>\<open>!md\<close> catches as it catches the empty string).
\<close>

definition markdownToHtml :: "jsstr option \<Rightarrow> jsstr" where
  "markdownToHtml md =
     (case md of
        None \<Rightarrow> []
      | Some s \<Rightarrow>
          if s = [] then []
          else concat (map wrap_block (split_blocks (ul_wrap (list_items True (bold
                 (heading 1 h1_open h1_close True
                   (heading 2 h2_open h2_close True
                     (heading 3 h3_open h3_close True (escape s))))))))))"

text \<open>
  \<^verbatim>\<open>AIInsights({ summary })\<close> puts \<^verbatim>\<open>markdownToHtml(summary)\<close> into the
  page as HTML.  The prop is whatever the response held: a falsy value gives the
  empty text, a string is converted, and any other truthy value has no
  \<^verbatim>\<open>replace\<close> method to call.
\<close>

definition AIInsights :: "jsval \<Rightarrow> js_error + jsstr" where
  "AIInsights summary =
     (case summary of
        JStr s \<Rightarrow> Inr (markdownToHtml (Some s))
      | v \<Rightarrow> if truthy v then Inl TypeError else Inr (markdownToHtml None))"

section \<open>stats-summary.tsx\<close>

text \<open>
  Three built-in operations are taken as given: \<^verbatim>\<open>String.prototype.toLowerCase\<close>
  (the Unicode case mapping), the locale's \<^verbatim>\<open>Intl.NumberFormat\<close> with at most
  two fraction digits, and the conversion of a number to a string.
\<close>

record js_env =
  toLowerCase :: "jsstr \<Rightarrow> jsstr"
  formatNumber :: "jsnum \<Rightarrow> jsstr"
  numberToString :: "jsnum \<Rightarrow> jsstr"

text \<open>
  \<^verbatim>\<open>\w\<close>, and \<^verbatim>\<open>c.toUpperCase()\<close> on such a character.
  \<open>capitalize_words\<close> is \<^verbatim>\<open>.replace(/\b\w/g, (c) => c.toUpperCase())\<close>:
  a word character is replaced when the character before it is not one
  (\<open>prev\<close> says whether it is).
\<close>

definition is_word :: "nat \<Rightarrow> bool" where
  "is_word c = (is_digit c \<or> (65 \<le> c \<and> c \<le> 90) \<or> (97 \<le> c \<and> c \<le> 122) \<or> c = 95)"

definition upper_ascii :: "nat \<Rightarrow> nat" where
  "upper_ascii c = (if 97 \<le> c \<and> c \<le> 122 then c - 32 else c)"

fun capitalize_words :: "bool \<Rightarrow> jsstr \<Rightarrow> jsstr" where
  "capitalize_words prev [] = []"
| "capitalize_words prev (c # cs) =
     (if is_word c \<and> \<not> prev then upper_ascii c else c) # capitalize_words (is_word c) cs"

definition toTitleCase :: "js_env \<Rightarrow> jsstr \<Rightarrow> jsstr" where
  "toTitleCase env input =
     capitalize_words False (toLowerCase env (replace_char 95 [32] input))"

text \<open>\<^verbatim>\<open>s.includes(p)\<close>.\<close>

fun includes_str :: "jsstr \<Rightarrow> jsstr \<Rightarrow> bool" where
  "includes_str [] p = (p = [])"
| "includes_str (c # cs) p = (starts_with p (c # cs) \<or> includes_str cs p)"

text \<open>
  The placeholder for a missing value: the three characters of the source's
  literal (an em dash that was read in another encoding).
\<close>

definition dash :: jsstr where
  "dash = [226, 8364, 8221]"

text \<open>
  \<^verbatim>\<open>formatValue(key, value)\<close>, in the order of its tests: a number, a
  boolean, null or undefined, an object (arrays are objects; \<^verbatim>\<open>Object.keys\<close>
  of an array is its indices), and a string, the only value left for
  \<^verbatim>\<open>String(value)\<close>.
\<close>

definition count_text :: "js_env \<Rightarrow> jsstr \<Rightarrow> nat \<Rightarrow> jsstr" where
  "count_text env key n =
     (if includes_str (toLowerCase env key) (lit ''cohort'') then dec n @ lit '' cohorts''
      else dec n @ lit '' items'')"

fun formatValue :: "js_env \<Rightarrow> jsstr \<Rightarrow> jsval \<Rightarrow> jsstr" where
  "formatValue env key (JNum n) = formatNumber env n"
| "formatValue env key (JBool b) = (if b then lit ''Yes'' else lit ''No'')"
| "formatValue env key JUndefined = dash"
| "formatValue env key JNull = dash"
| "formatValue env key (JArr xs) = count_text env key (length xs)"
| "formatValue env key (JObj kvs) = count_text env key (length kvs)"
| "formatValue env key (JStr s) = s"

text \<open>
  \<^verbatim>\<open>String(v)\<close>.  An array is its elements joined by commas, null and
  undefined elements as the empty string.  An object is
  \<^verbatim>\<open>[object Object]\<close>, unless it has an own property \<^verbatim>\<open>toString\<close>:
  a parsed value is not callable, and the conversion throws.
\<close>

fun js_String :: "js_env \<Rightarrow> jsval \<Rightarrow> js_error + jsstr"
  and js_join :: "js_env \<Rightarrow> jsval list \<Rightarrow> js_error + jsstr"
  and js_element :: "js_env \<Rightarrow> jsval \<Rightarrow> js_error + jsstr" where
  "js_String env JUndefined = Inr (lit ''undefined'')"
| "js_String env JNull = Inr (lit ''null'')"
| "js_String env (JBool b) = Inr (if b then lit ''true'' else lit ''false'')"
| "js_String env (JNum n) = Inr (numberToString env n)"
| "js_String env (JStr s) = Inr s"
| "js_String env (JArr xs) = js_join env xs"
| "js_String env (JObj kvs) =
     (if lit ''toString'' \<in> fst ` set kvs then Inl TypeError else Inr (lit ''[object Object]''))"
| "js_join env [] = Inr []"
| "js_join env [x] = js_element env x"
| "js_join env (x # y # ys) =
     (case js_element env x of
        Inl e \<Rightarrow> Inl e
      | Inr a \<Rightarrow> (case js_join env (y # ys) of Inl e \<Rightarrow> Inl e | Inr b \<Rightarrow> Inr (a @ [44] @ b)))"
| "js_element env JUndefined = Inr []"
| "js_element env JNull = Inr []"
| "js_element env (JBool b) = js_String env (JBool b)"
| "js_element env (JNum n) = js_String env (JNum n)"
| "js_element env (JStr s) = js_String env (JStr s)"
| "js_element env (JArr xs) = js_String env (JArr xs)"
| "js_element env (JObj kvs) = js_String env (JObj kvs)"

text \<open>\<^verbatim>\<open>a ?? b\<close>, and \<^verbatim>\<open>v?.k\<close>: undefined where \<^verbatim>\<open>v.k\<close> would throw.\<close>

definition nullish :: "jsval \<Rightarrow> bool" where
  "nullish v = (v = JUndefined \<or> v = JNull)"

definition coalesce :: "jsval \<Rightarrow> jsval \<Rightarrow> jsval" where
  "coalesce a b = (if nullish a then b else a)"

definition opt_prop :: "jsval \<Rightarrow> jsstr \<Rightarrow> jsval" where
  "opt_prop v k = (case get_prop v k of Inl e \<Rightarrow> JUndefined | Inr x \<Rightarrow> x)"

text \<open>An entry of \<^verbatim>\<open>normalized\<close>, drawn as one card.\<close>

record stat =
  stat_label :: jsstr
  stat_value :: jsstr
  stat_trend :: jsval
  stat_positive :: jsval
  stat_change :: jsval

text \<open>
  The function mapped over an array: \<^verbatim>\<open>s.label\<close> is read first and throws
  on a null or undefined element; once it has been read, \<open>s\<close> is neither, and
  the reads that follow are those of \<open>opt_prop\<close>.
\<close>

definition stat_of_element :: "js_env \<Rightarrow> jsval \<Rightarrow> js_error + stat" where
  "stat_of_element env s =
     (case get_prop s (lit ''label'') of
        Inl e \<Rightarrow> Inl e
      | Inr l \<Rightarrow>
          (case js_String env (coalesce l (JStr [])) of
             Inl e \<Rightarrow> Inl e
           | Inr name \<Rightarrow>
               Inr \<lparr>stat_label = toTitleCase env name,
                    stat_value = formatValue env name
                      (coalesce (coalesce (coalesce (opt_prop s (lit ''value''))
                         (opt_prop s (lit ''val''))) (opt_prop s (lit ''amount'')))
                         (opt_prop s (lit ''count''))),
                    stat_trend = opt_prop s (lit ''trend''),
                    stat_positive = opt_prop s (lit ''positive''),
                    stat_change = opt_prop s (lit ''change'')\<rparr>))"

text \<open>The function mapped over the entries of an object.\<close>

definition stat_of_entry :: "js_env \<Rightarrow> jsstr \<times> jsval \<Rightarrow> stat" where
  "stat_of_entry env kv =
     \<lparr>stat_label = toTitleCase env (fst kv), stat_value = formatValue env (fst kv) (snd kv),
      stat_trend = JUndefined, stat_positive = JUndefined, stat_change = JUndefined\<rparr>"

text \<open>\<^verbatim>\<open>xs.map(f)\<close> for an \<open>f\<close> that may throw: the first exception ends the map.\<close>

fun map_throwing :: "('a \<Rightarrow> js_error + 'b) \<Rightarrow> 'a list \<Rightarrow> js_error + 'b list" where
  "map_throwing f [] = Inr []"
| "map_throwing f (x # xs) =
     (case f x of
        Inl e \<Rightarrow> Inl e
      | Inr y \<Rightarrow> (case map_throwing f xs of Inl e \<Rightarrow> Inl e | Inr ys \<Rightarrow> Inr (y # ys)))"

fun normalized :: "js_env \<Rightarrow> jsval \<Rightarrow> js_error + stat list" where
  "normalized env (JArr xs) = map_throwing (stat_of_element env) xs"
| "normalized env (JObj kvs) = Inr (map (stat_of_entry env) kvs)"
| "normalized env v = Inr []"

text \<open>The component draws one card for each entry of \<^verbatim>\<open>normalized\<close>, in order.\<close>

definition StatsSummary :: "js_env \<Rightarrow> jsval \<Rightarrow> js_error + stat list" where
  "StatsSummary env data = normalized env data"

section \<open>The pie split, from the specification\<close>

text \<open>
  Modelled from the spec: the Series Builder's \<^verbatim>\<open>pieSeries\<close>, which is not
  among the sources (they hold only the component that draws
  \<^verbatim>\<open>pieData\<close>).  The specification: the active/inactive split "must sum to
  100 within integer rounding tolerance of \<plusminus>1 (distribute rounding remainder to
  the larger share, deterministic tie-break: larger share gets the remainder)".
  Each share is the rounded percentage of its count; what the two miss of 100
  goes to the larger share, the active one when the counts are equal.  The
  specification does not name the rounding, which is the parameter \<open>rnd\<close>.
\<close>

definition percentage :: "(rat \<Rightarrow> int) \<Rightarrow> nat \<Rightarrow> nat \<Rightarrow> int" where
  "percentage rnd part whole = rnd (of_nat (100 * part) / of_nat whole)"

definition rounding_remainder :: "(rat \<Rightarrow> int) \<Rightarrow> nat \<Rightarrow> nat \<Rightarrow> int" where
  "rounding_remainder rnd active inactive =
     100 - (percentage rnd active (active + inactive)
            + percentage rnd inactive (active + inactive))"

definition pieSeries :: "(rat \<Rightarrow> int) \<Rightarrow> nat \<Rightarrow> nat \<Rightarrow> int \<times> int" where
  "pieSeries rnd active inactive =
     (let a = percentage rnd active (active + inactive);
          i = percentage rnd inactive (active + inactive);
          r = rounding_remainder rnd active inactive
      in if inactive \<le> active then (a + r, i) else (a, i + r))"

text \<open>The series as the \<^verbatim>\<open>pieData\<close> the component draws.\<close>

definition pie_entries :: "int \<times> int \<Rightarrow> jsval" where
  "pie_entries p = JArr
     [JObj [(lit ''name'', JStr (lit ''Active Users'')), (lit ''value'', JNum (Fin (of_int (fst p))))],
      JObj [(lit ''name'', JStr (lit ''Inactive'')), (lit ''value'', JNum (Fin (of_int (snd p))))]]"

section \<open>Notions the statements use\<close>

text \<open>
  The tags the rewrite rules insert, and the texts in which every \<^verbatim>\<open><\<close>
  starts one of them and every \<^verbatim>\<open>>\<close> ends one: such a text is made of
  characters other than the two angle brackets and of whole tags of the list.
\<close>

definition own_tags :: "jsstr list" where
  "own_tags = [h3_open, h3_close, h2_open, h2_close, h1_open, h1_close,
     strong_open, strong_close, li_open, li_close, ul_open, ul_close, p_open, p_close, br]"

inductive own_html :: "jsstr \<Rightarrow> bool" where
  Nil: "own_html []"
| Text: "c \<noteq> 60 \<Longrightarrow> c \<noteq> 62 \<Longrightarrow> own_html s \<Longrightarrow> own_html (c # s)"
| Tag: "t \<in> set own_tags \<Longrightarrow> own_html s \<Longrightarrow> own_html (t @ s)"

text \<open>The escape of one character.\<close>

definition escape_char :: "nat \<Rightarrow> jsstr" where
  "escape_char c = (if c = 38 then lit ''&amp;'' else if c = 60 then lit ''&lt;''
     else if c = 62 then lit ''&gt;'' else [c])"


section \<open>Properties of data-visualization.tsx\<close>

















section \<open>Properties of ai-insights.tsx\<close>

lemmas tag_defs = h3_open_def h3_close_def h2_open_def h2_close_def h1_open_def h1_close_def
  strong_open_def strong_close_def li_open_def li_close_def ul_open_def ul_close_def
  p_open_def p_close_def br_def

lemma own_tags_shape:
  "t \<in> set own_tags \<Longrightarrow> \<exists>u. t = 60 # u @ [62] \<and> 60 \<notin> set u \<and> 62 \<notin> set u"
  unfolding own_tags_def tag_defs lit_def
  by (auto simp: Cons_eq_append_conv)

lemma own_tags_chars:
  "t \<in> set own_tags \<Longrightarrow> c \<in> set t \<Longrightarrow> \<not> is_lt c \<and> c \<noteq> 35 \<and> c \<noteq> 42 \<and> c \<noteq> 10"
  unfolding own_tags_def tag_defs lit_def is_lt_def
  by auto

lemma own_html_append: "own_html a \<Longrightarrow> own_html b \<Longrightarrow> own_html (a @ b)"
proof (induction a rule: own_html.induct)
  case (Tag t s)
  then have "own_html (s @ b)" by simp
  with Tag.hyps(1) have "own_html (t @ (s @ b))" by (rule own_html.Tag)
  then show ?case by simp
qed (auto intro: own_html.intros)

lemma own_html_tag: "t \<in> set own_tags \<Longrightarrow> own_html t"
  using own_html.Tag[of t "[]"] by (simp add: own_html.Nil)

lemma own_html_wrap:
  assumes "t1 \<in> set own_tags" "t2 \<in> set own_tags" "own_html a" "own_html b"
  shows "own_html (t1 @ a @ t2 @ b)"
proof -
  have "own_html (t2 @ b)" using assms(2,4) by (rule own_html.Tag)
  with assms(3) have "own_html (a @ t2 @ b)" by (rule own_html_append)
  with assms(1) show ?thesis by (rule own_html.Tag)
qed

lemma own_html_plain: "60 \<notin> set s \<Longrightarrow> 62 \<notin> set s \<Longrightarrow> own_html s"
  by (induction s) (auto intro: own_html.intros)

lemma own_html_text_inv:
  assumes "own_html (c # s)" "c \<noteq> 60"
  shows "own_html s \<and> c \<noteq> 62"
  using assms
proof (cases rule: own_html.cases)
  case (Tag t r)
  then obtain u where "t = 60 # u @ [62]" using own_tags_shape by blast
  with Tag assms(2) show ?thesis by simp
qed auto

lemma own_html_drop_plain: "own_html (a @ b) \<Longrightarrow> 60 \<notin> set a \<Longrightarrow> own_html b"
proof (induction a)
  case (Cons x a)
  then have "own_html (a @ b)" using own_html_text_inv[of x "a @ b"] by simp
  with Cons show ?case by simp
qed simp

lemma own_html_dropWhile:
  assumes "\<not> P 60"
  shows "own_html s \<Longrightarrow> own_html (dropWhile P s)"
proof (induction s)
  case (Cons x s)
  show ?case
  proof (cases "P x")
    case True
    then have "x \<noteq> 60" using assms by auto
    then have "own_html s" using Cons.prems own_html_text_inv by blast
    with Cons.IH True show ?thesis by simp
  next
    case False
    then show ?thesis using Cons.prems by simp
  qed
qed simp

lemma own_html_line:
  "own_html s \<Longrightarrow> own_html (rest_of_line s) \<and> own_html (after_line s)"
proof (induction s rule: own_html.induct)
  case Nil
  show ?case by (simp add: own_html.Nil)
next
  case (Text c s)
  then show ?case by (auto intro: own_html.intros)
next
  case (Tag t s)
  have "\<forall>c\<in>set t. \<not> is_lt c" using own_tags_chars[OF Tag.hyps(1)] by blast
  then have "rest_of_line (t @ s) = t @ rest_of_line s" "after_line (t @ s) = after_line s"
    by (simp_all add: takeWhile_append2 dropWhile_append2)
  with Tag show ?case by (auto intro: own_html.Tag)
qed

lemma own_html_after_gt:
  "own_html s \<Longrightarrow> 0 < n \<Longrightarrow> n \<le> length s \<Longrightarrow> s ! (n - 1) = 62
     \<Longrightarrow> own_html (take n s) \<and> own_html (drop n s)"
proof (induction s arbitrary: n rule: own_html.induct)
  case Nil
  then show ?case by simp
next
  case (Text c s)
  show ?case
  proof (cases n)
    case 0
    with Text.prems show ?thesis by simp
  next
    case (Suc m)
    with Text.prems Text.hyps have "0 < m" by (cases m) auto
    with Text.prems Suc have "own_html (take m s) \<and> own_html (drop m s)"
      by (intro Text.IH) (auto simp: nth_Cons')
    with Suc Text.hyps show ?thesis by (auto intro: own_html.Text)
  qed
next
  case (Tag t s)
  obtain u where t: "t = 60 # u @ [62]" "60 \<notin> set u" "62 \<notin> set u"
    using own_tags_shape[OF Tag.hyps(1)] by blast
  consider "n < length t" | "n = length t" | "length t < n" by linarith
  then show ?case
  proof cases
    case 1
    have "t @ s = (60 # u) @ (62 # s)" using t(1) by simp
    moreover have "n - 1 < length (60 # u)" using 1 Tag.prems(1) t(1) by simp
    ultimately have "(t @ s) ! (n - 1) = (60 # u) ! (n - 1)"
      by (simp only: nth_append if_True)
    moreover have "(60 # u) ! (n - 1) \<in> set (60 # u)"
      using 1 Tag.prems(1) t(1) by (intro nth_mem) auto
    ultimately show ?thesis using Tag.prems(3) t by auto
  next
    case 2
    then show ?thesis using Tag.hyps by (simp add: own_html_tag)
  next
    case 3
    then have "\<not> n - 1 < length t" "n - 1 - length t = n - length t - 1" by auto
    then have "s ! (n - length t - 1) = 62"
      using Tag.prems(3) by (simp add: nth_append)
    with 3 have "own_html (take (n - length t) s) \<and> own_html (drop (n - length t) s)"
      using Tag.prems by (intro Tag.IH) auto
    with 3 Tag.hyps(1) show ?thesis by (auto intro: own_html.Tag)
  qed
qed

lemma replace_char_append: "replace_char c r (a @ b) = replace_char c r a @ replace_char c r b"
  by (simp add: replace_char_def)

lemma replace_char_id: "c \<notin> set s \<Longrightarrow> replace_char c r s = s"
  by (induction s) (auto simp: replace_char_def)

lemma escape_charwise: "escape s = concat (map escape_char s)"
proof (induction s)
  case Nil
  show ?case by (simp add: escape_def replace_char_def)
next
  case (Cons x s)
  have "escape (x # s) = escape [x] @ escape s"
    using replace_char_append[of _ _ "[x]" s]
    by (simp add: escape_def replace_char_append replace_char_def)
  moreover have "escape [x] = escape_char x"
    by (simp add: escape_def replace_char_def escape_char_def lit_def)
  ultimately show ?case using Cons by simp
qed

lemma escape_no_angle: "60 \<notin> set (escape s) \<and> 62 \<notin> set (escape s)"
  by (auto simp: escape_charwise escape_char_def lit_def)

lemma starts_with_Cons_neq: "p \<noteq> [] \<Longrightarrow> hd p \<noteq> x \<Longrightarrow> \<not> starts_with p (x # s)"
  by (cases p) (auto simp: starts_with_def)

lemma starts_with_split: "starts_with p s \<Longrightarrow> s = p @ drop (length p) s"
  by (metis append_take_drop_id starts_with_def)

lemma heading_skip:
  assumes "0 < k"
  shows "t \<noteq> [] \<Longrightarrow> \<forall>c\<in>set t. c \<noteq> 35 \<and> \<not> is_lt c
    \<Longrightarrow> heading k opn cls bol (t @ r) = t @ heading k opn cls False r"
proof (induction t arbitrary: bol)
  case Nil
  then show ?case by simp
next
  case (Cons x t)
  have "\<not> starts_with (replicate k 35) (x # t @ r)"
    using assms Cons.prems(2) by (intro starts_with_Cons_neq) (cases k; simp)+
  then have step: "heading k opn cls bol (x # t @ r) = x # heading k opn cls False (t @ r)"
    using Cons.prems(2) by simp
  show ?case
  proof (cases "t = []")
    case True
    with step show ?thesis by simp
  next
    case False
    with Cons step show ?thesis by simp
  qed
qed

lemma heading_own:
  assumes "own_html opn" "own_html cls" "0 < k"
  shows "own_html s \<Longrightarrow> own_html (heading k opn cls bol s)"
proof (induction "length s" arbitrary: s bol rule: less_induct)
  case less
  from less.prems show ?case
  proof (cases rule: own_html.cases)
    case Nil
    then show ?thesis by (simp add: own_html.Nil)
  next
    case (Text c s')
    show ?thesis
    proof (cases "bol \<and> starts_with (replicate k 35) s \<and> drop k s \<noteq> []
        \<and> is_space (hd (drop k s))")
      case True
      define r where "r = dropWhile is_space (drop k s)"
      have "s = replicate k 35 @ drop k s"
        using True starts_with_split[of "replicate k 35" s] by simp
      then have "own_html (drop k s)"
        using less.prems own_html_drop_plain[of "replicate k 35" "drop k s"] by simp
      then have "own_html r"
        unfolding r_def by (intro own_html_dropWhile) (simp add: is_space_def)
      then have line: "own_html (rest_of_line r)" "own_html (after_line r)"
        using own_html_line by blast+
      have "length (after_line r) < length s"
        unfolding r_def using True by (intro heading_measure) auto
      then have "own_html (heading k opn cls False (after_line r))"
        using line(2) by (intro less.hyps)
      then have "own_html (opn @ rest_of_line r @ cls @ heading k opn cls False (after_line r))"
        using assms(1,2) line(1) by (intro own_html_append)
      moreover have "heading k opn cls bol s
          = opn @ rest_of_line r @ cls @ heading k opn cls False (after_line r)"
        using True unfolding r_def Text(1) by (simp add: Let_def)
      ultimately show ?thesis by simp
    next
      case False
      then have "heading k opn cls bol s = c # heading k opn cls (is_lt c) s'"
        unfolding Text(1) by auto
      moreover have "own_html (heading k opn cls (is_lt c) s')"
        using Text by (intro less.hyps) auto
      ultimately show ?thesis using Text by (auto intro: own_html.Text)
    qed
  next
    case (Tag t s')
    obtain u where t: "t = 60 # u @ [62]" using own_tags_shape[OF Tag(2)] by blast
    have "heading k opn cls bol (t @ s') = t @ heading k opn cls False s'"
      using own_tags_chars[OF Tag(2)] t by (intro heading_skip[OF assms(3)]) auto
    moreover have "own_html (heading k opn cls False s')"
      using Tag t by (intro less.hyps) auto
    ultimately show ?thesis using Tag by (auto intro: own_html.Tag)
  qed
qed

lemma find_close_skip:
  "\<forall>c\<in>set t. c \<noteq> 42 \<and> \<not> is_lt c \<Longrightarrow>
   find_close (t @ r) = (case find_close r of None \<Rightarrow> None | Some (cap, r') \<Rightarrow> Some (t @ cap, r'))"
proof (induction t)
  case Nil
  show ?case by (simp split: option.splits)
next
  case (Cons x t)
  have "\<not> starts_with [42, 42] (x # t @ r)"
    using Cons.prems by (intro starts_with_Cons_neq) auto
  with Cons show ?case by (simp split: option.splits)
qed

lemma find_close_own:
  "own_html s \<Longrightarrow> find_close s = Some (cap, r) \<Longrightarrow> own_html cap \<and> own_html r"
proof (induction s arbitrary: cap rule: own_html.induct)
  case Nil
  then show ?case by simp
next
  case (Text c s)
  show ?case
  proof (cases "starts_with [42, 42] (c # s)")
    case True
    then obtain s' where s': "s = 42 # s'"
      by (cases s) (auto simp: starts_with_def)
    then have "own_html s'" using Text.hyps(3) own_html_text_inv[of 42 s'] by simp
    with True Text.prems s' show ?thesis by (simp add: own_html.Nil)
  next
    case False
    with Text.prems obtain cap' where c: "\<not> is_lt c" "find_close s = Some (cap', r)" "cap = c # cap'"
      by (auto split: if_splits option.splits)
    with Text.IH[of cap'] Text.hyps show ?thesis by (auto intro: own_html.Text)
  qed
next
  case (Tag t s)
  have "\<forall>c\<in>set t. c \<noteq> 42 \<and> \<not> is_lt c" using own_tags_chars[OF Tag.hyps(1)] by blast
  from find_close_skip[OF this, of s] Tag.prems
  obtain cap' where "find_close s = Some (cap', r)" "cap = t @ cap'"
    by (auto split: option.splits)
  with Tag.IH[of cap'] Tag.hyps(1) show ?case by (auto intro: own_html.Tag)
qed

lemma bold_skip: "\<forall>c\<in>set t. c \<noteq> 42 \<Longrightarrow> bold (t @ r) = t @ bold r"
proof (induction t)
  case (Cons x t)
  have "\<not> starts_with [42, 42] (x # t @ r)"
    using Cons.prems by (intro starts_with_Cons_neq) auto
  with Cons show ?case by simp
qed simp

lemma starts_with_two: "starts_with [a, b] s = (\<exists>r. s = a # b # r)"
  by (cases s; cases "tl s") (auto simp: starts_with_def)

lemma bold_open:
  "bold (42 # 42 # s) =
     (case find_close s of
        Some (cap, r) \<Rightarrow> strong_open @ cap @ strong_close @ bold r
      | None \<Rightarrow> 42 # bold (42 # s))"
  by (simp add: starts_with_def)

lemma bold_own: "own_html s \<Longrightarrow> own_html (bold s)"
proof (induction "length s" arbitrary: s rule: less_induct)
  case less
  from less.prems show ?case
  proof (cases rule: own_html.cases)
    case Nil
    then show ?thesis by (simp add: own_html.Nil)
  next
    case (Text c s')
    have tail: "own_html (c # bold s')"
      using Text less.hyps[of s'] by (auto intro: own_html.Text)
    show ?thesis
    proof (cases "starts_with [42, 42] s")
      case True
      then obtain s'' where s'': "s = 42 # 42 # s''"
        by (auto simp: starts_with_two)
      then have own: "own_html s''"
        using less.prems own_html_drop_plain[of "[42, 42]" s''] by simp
      show ?thesis
      proof (cases "find_close s''")
        case None
        from Text(1) s'' have cs: "c = 42" "s' = 42 # s''" by auto
        have "bold s = 42 # bold (42 # s'')"
          by (simp add: s'' bold_open None del: bold.simps)
        moreover have "own_html (42 # bold (42 # s''))"
          using tail by (simp add: cs del: bold.simps)
        ultimately show ?thesis by simp
      next
        case (Some p)
        obtain cap r where p: "p = (cap, r)" by (cases p)
        have "length r < length s''" using Some p find_close_length by blast
        then have "own_html (bold r)"
          using find_close_own[OF own, of cap r] Some p s'' by (intro less.hyps) auto
        moreover have "own_html cap" using find_close_own[OF own, of cap r] Some p by simp
        ultimately have "own_html (strong_open @ cap @ strong_close @ bold r)"
          by (intro own_html_wrap) (simp_all add: own_tags_def)
        then show ?thesis using Some p s'' by (simp add: bold_open del: bold.simps)
      qed
    next
      case False
      with tail Text(1) show ?thesis by simp
    qed
  next
    case (Tag t s')
    obtain u where t: "t = 60 # u @ [62]" using own_tags_shape[OF Tag(2)] by blast
    have "bold (t @ s') = t @ bold s'"
      using own_tags_chars[OF Tag(2)] by (intro bold_skip) auto
    moreover have "own_html (bold s')"
      using Tag t by (intro less.hyps) auto
    ultimately show ?thesis using Tag by (auto intro: own_html.Tag)
  qed
qed

lemma li_marker_lt: "li_marker (60 # s) = None"
  by (simp add: li_marker_def starts_with_def is_digit_def)

lemma li_marker_plain:
  assumes "li_marker s = Some n"
  shows "n \<le> length s \<and> 60 \<notin> set (take n s)"
proof (cases "starts_with [45, 32] s")
  case True
  then obtain r where "s = 45 # 32 # r" by (auto simp: starts_with_two)
  moreover from True assms have "n = 2" by (simp add: li_marker_def)
  ultimately show ?thesis by simp
next
  case False
  define m where "m = length (takeWhile is_digit s)"
  from False assms have n: "n = m + 2" "starts_with [46, 32] (drop m s)"
    by (auto simp: li_marker_def Let_def m_def split: if_splits)
  then have d: "drop m s = [46, 32] @ drop 2 (drop m s)"
    using starts_with_split[of "[46, 32]" "drop m s"] by simp
  have tw: "take m s = takeWhile is_digit s"
    unfolding m_def by (metis takeWhile_eq_take)
  have "s = take m s @ drop m s" by simp
  then have s: "s = takeWhile is_digit s @ [46, 32] @ drop 2 (drop m s)"
    using d tw by metis
  have len: "length s = m + 2 + length (drop 2 (drop m s))"
    using arg_cong[OF s, of length] by (simp add: m_def)
  have tk: "take n s = takeWhile is_digit s @ [46, 32]"
    using arg_cong[OF s, of "take n"] n(1) by (simp add: m_def)
  have no: "60 \<notin> set (takeWhile is_digit s)"
    using set_takeWhileD[of 60 is_digit s] by (auto simp: is_digit_def)
  have "60 \<notin> set (take n s)"
    unfolding tk using no by simp
  moreover have "n \<le> length s"
    using len n(1) by simp
  ultimately show ?thesis by blast
qed

lemma list_items_skip:
  "t \<noteq> [] \<Longrightarrow> \<forall>c\<in>set t. \<not> is_lt c \<Longrightarrow> (bol \<longrightarrow> li_marker (t @ r) = None)
    \<Longrightarrow> list_items bol (t @ r) = t @ list_items False r"
proof (induction t arbitrary: bol)
  case Nil
  then show ?case by simp
next
  case (Cons x t)
  then have step: "list_items bol (x # t @ r) = x # list_items False (t @ r)"
    by auto
  show ?case
  proof (cases "t = []")
    case True
    with step show ?thesis by simp
  next
    case False
    with Cons.prems(2) have "list_items False (t @ r) = t @ list_items False r"
      by (intro Cons.IH) auto
    with step show ?thesis by simp
  qed
qed

lemma list_items_own: "own_html s \<Longrightarrow> own_html (list_items bol s)"
proof (induction "length s" arbitrary: s bol rule: less_induct)
  case less
  from less.prems show ?case
  proof (cases rule: own_html.cases)
    case Nil
    then show ?thesis by (simp add: own_html.Nil)
  next
    case (Text c s')
    show ?thesis
    proof (cases "if bol then li_marker s else None")
      case None
      then have "list_items bol s = c # list_items (is_lt c) s'"
        unfolding Text(1) by simp
      moreover have "own_html (list_items (is_lt c) s')"
        using Text by (intro less.hyps) auto
      ultimately show ?thesis using Text by (auto intro: own_html.Text)
    next
      case (Some n)
      then have m: "li_marker s = Some n" by (simp split: if_splits)
      then have n: "0 < n" "n \<le> length s" "60 \<notin> set (take n s)"
        using li_marker_pos li_marker_plain by blast+
      have "own_html (take n s @ drop n s)" using less.prems by simp
      then have "own_html (drop n s)" using n(3) by (rule own_html_drop_plain)
      then have line: "own_html (rest_of_line (drop n s))" "own_html (after_line (drop n s))"
        using own_html_line by blast+
      have "length (after_line (drop n s)) \<le> length (drop n s)"
        by (rule length_dropWhile_le)
      then have "length (after_line (drop n s)) < length s"
        using n(1) Text(1) by (cases n) auto
      then have "own_html (list_items False (after_line (drop n s)))"
        using line(2) by (intro less.hyps)
      then have "own_html (li_open @ rest_of_line (drop n s) @ li_close
          @ list_items False (after_line (drop n s)))"
        using line(1) by (intro own_html_wrap) (simp_all add: own_tags_def)
      moreover have "list_items bol s = li_open @ rest_of_line (drop n s) @ li_close
          @ list_items False (after_line (drop n s))"
        using Some unfolding Text(1) by simp
      ultimately show ?thesis by simp
    qed
  next
    case (Tag t s')
    obtain u where t: "t = 60 # u @ [62]" using own_tags_shape[OF Tag(2)] by blast
    have "list_items bol (t @ s') = t @ list_items False s'"
      using own_tags_chars[OF Tag(2)] t by (intro list_items_skip) (auto simp: li_marker_lt)
    moreover have "own_html (list_items False s')"
      using Tag t by (intro less.hyps) auto
    ultimately show ?thesis using Tag by (auto intro: own_html.Tag)
  qed
qed

lemma take_eq_length: "take n xs = p \<Longrightarrow> length p \<le> length xs"
  by (drule arg_cong[where f = length]) simp

lemma last_occ_sound:
  "last_occ pat s = Some k \<Longrightarrow> k + length pat \<le> length s \<and> take (length pat) (drop k s) = pat"
proof (induction s arbitrary: k)
  case Nil
  then show ?case by (simp split: if_splits)
next
  case (Cons x s)
  show ?case
  proof (cases "last_occ pat s")
    case None
    with Cons.prems have k: "k = 0" "starts_with pat (x # s)"
      by (auto split: if_splits)
    then have "take (length pat) (x # s) = pat" by (simp add: starts_with_def)
    moreover from this have "length pat \<le> length (x # s)"
      by (rule take_eq_length)
    ultimately show ?thesis using k by simp
  next
    case (Some j)
    with Cons.prems have "k = Suc j" by simp
    with Cons.IH[OF Some] show ?thesis by simp
  qed
qed

lemma li_item_split:
  assumes "own_html s" "li_item s = Some n"
  shows "0 < n \<and> n \<le> length s \<and> own_html (take n s) \<and> own_html (drop n s)"
proof -
  define line where "line = rest_of_line (drop (length li_open) s)"
  from assms(2) obtain k where k: "starts_with li_open s" "last_occ li_close line = Some k"
    and n: "n = (if length li_open + k + length li_close < length s
                    \<and> s ! (length li_open + k + length li_close) = 10
                 then length li_open + k + length li_close + 1
                 else length li_open + k + length li_close)"
    by (auto simp: li_item_def line_def Let_def split: if_splits option.splits)
  define m where "m = length li_open + k + length li_close"
  have kl: "k + length li_close \<le> length line" "take (length li_close) (drop k line) = li_close"
    using last_occ_sound[OF k(2)] by auto
  have pre: "line = take (length line) (drop (length li_open) s)"
    unfolding line_def by (metis takeWhile_eq_take)
  have ll: "length line \<le> length (drop (length li_open) s)"
    unfolding line_def by (rule length_takeWhile_le)
  have lo: "length li_open \<le> length s"
    using k(1) unfolding starts_with_def by (rule take_eq_length)
  with ll have ms: "m \<le> length s" using kl(1) by (simp add: m_def)
  have len: "length li_open = 4" "length li_close = 5" "li_close ! 4 = 62"
    by (simp_all add: li_open_def li_close_def lit_def)
  have "li_close ! 4 = take (length li_close) (drop k line) ! 4" using kl(2) by simp
  also have "\<dots> = line ! (k + 4)"
    using kl(1) by (simp add: len)
  also have "\<dots> = drop (length li_open) s ! (k + 4)"
  proof -
    have "k + 4 < length line" using kl(1) by (simp add: len)
    then show ?thesis using pre by (metis nth_take)
  qed
  also have "\<dots> = s ! (length li_open + (k + 4))"
    using lo by (rule nth_drop)
  also have "length li_open + (k + 4) = m - 1"
    by (simp add: m_def len)
  finally have "s ! (m - 1) = 62" by (simp add: len)
  moreover have "0 < m" by (simp add: m_def len)
  ultimately have split: "own_html (take m s)" "own_html (drop m s)"
    using own_html_after_gt[OF assms(1), of m] ms by auto
  show ?thesis
  proof (cases "m < length s \<and> s ! m = 10")
    case False
    then have "n = m" using n by (simp add: m_def Let_def)
    with split ms \<open>0 < m\<close> show ?thesis by simp
  next
    case True
    then have nm: "n = Suc m" using n by (simp add: m_def Let_def)
    from True have d: "drop m s = 10 # drop (Suc m) s"
      by (metis Cons_nth_drop_Suc)
    then have "own_html (drop (Suc m) s)"
      using split(2) own_html_text_inv[of 10 "drop (Suc m) s"] by simp
    moreover have "take (Suc m) s = take m s @ [10]"
      using True by (simp add: take_Suc_conv_app_nth)
    then have "own_html (take (Suc m) s)"
      using split(1) by (simp add: own_html_append own_html_plain)
    ultimately show ?thesis using nm True by simp
  qed
qed

lemma li_item_lt: "x \<noteq> 60 \<Longrightarrow> li_item (x # s) = None"
  by (simp add: li_item_def starts_with_def li_open_def lit_def)

lemma li_run_split:
  "own_html s \<Longrightarrow> li_run s \<le> length s \<and> own_html (take (li_run s) s) \<and> own_html (drop (li_run s) s)"
proof (induction s rule: li_run.induct)
  case (1 s)
  show ?case
  proof (cases "li_item s")
    case None
    then have "li_run s = 0" by (simp add: li_run.simps[of s])
    with "1.prems" show ?thesis by (simp add: own_html.Nil)
  next
    case (Some n)
    then have run: "li_run s = n + li_run (drop n s)" by (simp add: li_run.simps[of s])
    from li_item_split[OF "1.prems" Some]
    have n: "n \<le> length s" "own_html (take n s)" "own_html (drop n s)" by auto
    from "1.IH"[OF Some n(3)]
    have r: "li_run (drop n s) \<le> length (drop n s)"
      "own_html (take (li_run (drop n s)) (drop n s))"
      "own_html (drop (li_run (drop n s)) (drop n s))" by auto
    have "take (li_run s) s = take n s @ take (li_run (drop n s)) (drop n s)"
      unfolding run by (simp add: take_add)
    moreover have "drop (li_run s) s = drop (li_run (drop n s)) (drop n s)"
      unfolding run by (simp add: add.commute)
    ultimately show ?thesis
      using n r run by (simp add: own_html_append)
  qed
qed

lemma li_run_lt: "x \<noteq> 60 \<Longrightarrow> li_run (x # s) = 0"
  by (simp add: li_run.simps[of "x # s"] li_item_lt)

lemma ul_wrap_skip: "60 \<notin> set a \<Longrightarrow> ul_wrap (a @ r) = a @ ul_wrap r"
  by (induction a) (simp_all add: li_run_lt)

lemma ul_wrap_own: "own_html s \<Longrightarrow> own_html (ul_wrap s)"
proof (induction "length s" arbitrary: s rule: less_induct)
  case less
  from less.prems show ?case
  proof (cases rule: own_html.cases)
    case Nil
    then show ?thesis by (simp add: own_html.Nil)
  next
    case (Text c s')
    then have "ul_wrap s = c # ul_wrap s'" by (simp add: li_run_lt)
    moreover have "own_html (ul_wrap s')" using Text by (intro less.hyps) auto
    ultimately show ?thesis using Text by (auto intro: own_html.Text)
  next
    case (Tag t s')
    obtain u where t: "t = 60 # u @ [62]" "60 \<notin> set u"
      using own_tags_shape[OF Tag(2)] by blast
    have s: "s = 60 # (u @ [62]) @ s'" using Tag(1) t(1) by simp
    show ?thesis
    proof (cases "li_run s = 0")
      case True
      then have "ul_wrap s = 60 # ul_wrap ((u @ [62]) @ s')"
        unfolding s by simp
      also have "\<dots> = 60 # (u @ [62]) @ ul_wrap s'"
        using t(2) by (subst ul_wrap_skip) auto
      finally have "ul_wrap s = t @ ul_wrap s'" using t(1) by simp
      moreover have "own_html (ul_wrap s')" using Tag t by (intro less.hyps) auto
      ultimately show ?thesis using Tag by (auto intro: own_html.Tag)
    next
      case False
      from li_run_split[OF less.prems]
      have r: "own_html (take (li_run s) s)" "own_html (drop (li_run s) s)" by auto
      have "length (drop (li_run s) s) < length s" using False s by simp
      then have "own_html (ul_wrap (drop (li_run s) s))" using r(2) by (intro less.hyps)
      then have "own_html (ul_open @ take (li_run s) s @ ul_close @ ul_wrap (drop (li_run s) s))"
        using r(1) by (intro own_html_wrap) (simp_all add: own_tags_def)
      moreover have "ul_wrap s
          = ul_open @ take (li_run s) s @ ul_close @ ul_wrap (drop (li_run s) s)"
        using False by (subst s, subst ul_wrap.simps(2)) (simp add: s)
      ultimately show ?thesis by simp
    qed
  qed
qed

lemma split_blocks_not_Nil: "split_blocks s \<noteq> []"
  by (induction s rule: split_blocks.induct) (auto split: list.splits)

lemma split_blocks_skip:
  "\<forall>c\<in>set t. c \<noteq> 10 \<Longrightarrow>
   split_blocks (t @ r) = (t @ hd (split_blocks r)) # tl (split_blocks r)"
proof (induction t)
  case Nil
  show ?case using split_blocks_not_Nil[of r] by simp
next
  case (Cons x t)
  have "\<not> starts_with [10, 10] (x # t @ r)"
    using Cons.prems by (intro starts_with_Cons_neq) auto
  with Cons show ?case by simp
qed

lemma split_blocks_own: "own_html s \<Longrightarrow> \<forall>b\<in>set (split_blocks s). own_html b"
proof (induction "length s" arbitrary: s rule: less_induct)
  case less
  from less.prems show ?case
  proof (cases rule: own_html.cases)
    case Nil
    then show ?thesis by (simp add: own_html.Nil)
  next
    case (Text c s')
    show ?thesis
    proof (cases "starts_with [10, 10] s")
      case True
      have "own_html (dropWhile (\<lambda>x. x = 10) s')"
        using Text(4) by (intro own_html_dropWhile) auto
      moreover have "length (dropWhile (\<lambda>x. x = 10) s') < length s"
        using length_dropWhile_le[of "\<lambda>x. x = 10" s'] Text(1) by simp
      ultimately have "\<forall>b\<in>set (split_blocks (dropWhile (\<lambda>x. x = 10) s')). own_html b"
        by (intro less.hyps)
      then show ?thesis using True unfolding Text(1) by (simp add: own_html.Nil)
    next
      case False
      obtain b bs where b: "split_blocks s' = b # bs"
        using split_blocks_not_Nil[of s'] by (cases "split_blocks s'") auto
      have "\<forall>b\<in>set (split_blocks s'). own_html b"
        using Text by (intro less.hyps) auto
      then show ?thesis using False b Text unfolding Text(1) by (auto intro: own_html.Text)
    qed
  next
    case (Tag t s')
    obtain u where t: "t = 60 # u @ [62]" using own_tags_shape[OF Tag(2)] by blast
    obtain b bs where b: "split_blocks s' = b # bs"
      using split_blocks_not_Nil[of s'] by (cases "split_blocks s'") auto
    have "split_blocks (t @ s') = (t @ b) # bs"
      using own_tags_chars[OF Tag(2)] b by (subst split_blocks_skip) auto
    moreover have "\<forall>b\<in>set (split_blocks s'). own_html b"
      using Tag t by (intro less.hyps) auto
    ultimately show ?thesis using Tag b by (auto intro: own_html.Tag)
  qed
qed

lemma replace_br_own: "own_html b \<Longrightarrow> own_html (replace_char 10 br b)"
proof (induction b rule: own_html.induct)
  case Nil
  show ?case by (simp add: replace_char_def own_html.Nil)
next
  case (Text c s)
  have "replace_char 10 br (c # s) = (if c = 10 then br else [c]) @ replace_char 10 br s"
    by (simp add: replace_char_def)
  moreover have "own_html (if c = 10 then br else [c])"
    using Text.hyps by (auto intro: own_html_tag own_html_plain simp: own_tags_def)
  ultimately show ?case using Text.IH by (simp only: own_html_append)
next
  case (Tag t s)
  have "10 \<notin> set t" using own_tags_chars[OF Tag.hyps(1)] by blast
  then have "replace_char 10 br (t @ s) = t @ replace_char 10 br s"
    by (simp add: replace_char_append replace_char_id)
  with Tag show ?case by (auto intro: own_html.Tag)
qed

lemma wrap_block_own: "own_html b \<Longrightarrow> own_html (wrap_block b)"
  using own_html_wrap[of p_open p_close "replace_char 10 br b" "[]"]
  by (auto simp: wrap_block_def replace_br_own own_tags_def own_html.Nil)

lemma concat_own: "\<forall>b\<in>set bs. own_html b \<Longrightarrow> own_html (concat bs)"
  by (induction bs) (auto intro: own_html_append own_html.Nil)

lemma own_html_opens:
  "own_html h1_open" "own_html h1_close" "own_html h2_open" "own_html h2_close"
  "own_html h3_open" "own_html h3_close"
  by (rule own_html_tag, simp add: own_tags_def)+

lemma markdownToHtml_own: "own_html (markdownToHtml md)"
proof (cases md)
  case None
  then show ?thesis by (simp add: markdownToHtml_def own_html.Nil)
next
  case (Some s)
  have "own_html (escape s)"
    using escape_no_angle[of s] by (intro own_html_plain) auto
  then have "own_html (heading 3 h3_open h3_close True (escape s))"
    by (simp add: heading_own own_html_opens)
  then have "own_html (heading 2 h2_open h2_close True (heading 3 h3_open h3_close True (escape s)))"
    by (simp add: heading_own own_html_opens)
  then have "own_html (heading 1 h1_open h1_close True
      (heading 2 h2_open h2_close True (heading 3 h3_open h3_close True (escape s))))"
    by (simp add: heading_own own_html_opens)
  then have "own_html (ul_wrap (list_items True (bold (heading 1 h1_open h1_close True
      (heading 2 h2_open h2_close True (heading 3 h3_open h3_close True (escape s)))))))"
    by (simp add: ul_wrap_own list_items_own bold_own)
  then have "\<forall>b\<in>set (split_blocks (ul_wrap (list_items True (bold (heading 1 h1_open h1_close True
      (heading 2 h2_open h2_close True (heading 3 h3_open h3_close True (escape s)))))))).
      own_html b"
    by (rule split_blocks_own)
  then show ?thesis
    using Some by (auto simp: markdownToHtml_def own_html.Nil intro!: concat_own wrap_block_own)
qed


lemma own_html_foreign_tag: "\<not> own_html (lit ''<b>'')"
proof
  assume "own_html (lit ''<b>'')"
  then show False
    by (cases rule: own_html.cases)
      (auto simp: lit_def own_tags_def tag_defs Cons_eq_append_conv)
qed

lemma replicate_hashes: "replicate 1 x = [x]" "replicate 2 x = [x, x]" "replicate 3 x = [x, x, x]"
  by (simp_all add: numeral_2_eq_2 numeral_3_eq_3)

lemmas markdown_defs = replicate_hashes markdownToHtml_def escape_def replace_char_def lit_def starts_with_def
  is_space_def is_lt_def is_digit_def li_marker_def li_item_def wrap_block_def block_start_def
  trim_def tag_defs Let_def li_run.simps

text \<open>
  The rules at work: the white space after the hashes may run over a line end, a
  pair of stars with no closing pair on its line stays, and a carriage return
  ends a run of list items where a line feed does not.
\<close>

lemma markdownToHtml_examples:
  "markdownToHtml (Some (lit ''###'' @ [10] @ lit ''- x''))
     = h3_open @ lit ''- x'' @ h3_close"
  "markdownToHtml (Some (lit ''- a **b'' @ [10] @ lit ''- c** d'' @ [13] @ lit ''- e''))
     = ul_open @ li_open @ lit ''a **b'' @ li_close @ [10] @ li_open @ lit ''c** d'' @ li_close
       @ ul_close @ [13] @ ul_open @ li_open @ lit ''e'' @ li_close @ ul_close"
  by (simp_all add: markdown_defs)

text \<open>
  C8.  Whatever the input, the output of \<^verbatim>\<open>markdownToHtml\<close> is made of
  characters other than \<^verbatim>\<open><\<close> and \<^verbatim>\<open>>\<close> and of the tags of its own rewrite
  rules (headings, strong, list item, list, paragraph, line break): no tag of
  the input survives.  The absent and the empty input give the empty text.  The
  three passes of \<^verbatim>\<open>escape\<close> replace each \<^verbatim>\<open>&\<close>, \<^verbatim>\<open><\<close> and \<^verbatim>\<open>>\<close> of the
  input once (no entity is escaped twice), they leave no angle bracket, and
  every rewrite rule works on the escaped text.  So the HTML that the component
  puts into the page, when it does not throw, has no tag but these.
\<close>

theorem markdownToHtml_only_own_tags:
  "own_html (markdownToHtml md)
   \<and> markdownToHtml None = [] \<and> markdownToHtml (Some []) = []
   \<and> escape s = concat (map escape_char s)
   \<and> 60 \<notin> set (escape s) \<and> 62 \<notin> set (escape s)
   \<and> (s \<noteq> [] \<longrightarrow> markdownToHtml (Some s) =
         concat (map wrap_block (split_blocks (ul_wrap (list_items True (bold
           (heading 1 h1_open h1_close True (heading 2 h2_open h2_close True
             (heading 3 h3_open h3_close True (concat (map escape_char s)))))))))))
   \<and> (AIInsights v = Inr h \<longrightarrow> own_html h)"
proof -
  have "AIInsights v = Inr h \<longrightarrow> own_html h"
    using markdownToHtml_own by (cases v) (auto simp: AIInsights_def split: if_splits)
  then show ?thesis
    using markdownToHtml_own[of md] escape_no_angle[of s] escape_charwise[of s]
    by (simp add: markdownToHtml_def)
qed

theorem markdownToHtml_only_own_tags_witness:
  "own_html (markdownToHtml (Some (lit ''# <b>'' @ [10] @ lit ''- **x** & y'')))
   \<and> markdownToHtml (Some (lit ''# <b>'' @ [10] @ lit ''- **x** & y''))
       = h1_open @ lit ''&lt;b&gt;'' @ h1_close @ [10] @ ul_open @ li_open @ strong_open
         @ lit ''x'' @ strong_close @ lit '' &amp; y'' @ li_close @ ul_close
   \<and> markdownToHtml (Some (lit ''<script>alert(1)</script>''))
       = p_open @ lit ''&lt;script&gt;alert(1)&lt;/script&gt;'' @ p_close"
proof -
  have "own_html (markdownToHtml (Some (lit ''# <b>'' @ [10] @ lit ''- **x** & y'')))"
    using markdownToHtml_only_own_tags[of "Some (lit ''# <b>'' @ [10] @ lit ''- **x** & y'')" "[]"]
    by (rule conjunct1)
  moreover have "markdownToHtml (Some (lit ''# <b>'' @ [10] @ lit ''- **x** & y''))
       = h1_open @ lit ''&lt;b&gt;'' @ h1_close @ [10] @ ul_open @ li_open @ strong_open
         @ lit ''x'' @ strong_close @ lit '' &amp; y'' @ li_close @ ul_close"
    by (simp add: markdown_defs)
  moreover have "markdownToHtml (Some (lit ''<script>alert(1)</script>''))
       = p_open @ lit ''&lt;script&gt;alert(1)&lt;/script&gt;'' @ p_close"
    by (simp add: markdown_defs)
  ultimately show ?thesis by blast
qed

section \<open>Properties of stats-summary.tsx\<close>

lemma map_throwing_error:
  "(\<exists>e. map_throwing f xs = Inl e) = (\<exists>x\<in>set xs. \<exists>e. f x = Inl e)"
proof (induction xs)
  case Nil
  show ?case by simp
next
  case (Cons x xs)
  show ?case
  proof (cases "f x")
    case (Inl e)
    then show ?thesis by auto
  next
    case (Inr y)
    with Cons show ?thesis by (cases "map_throwing f xs") auto
  qed
qed

lemma get_prop_error: "(\<exists>e. get_prop v k = Inl e) = nullish v"
  by (cases v) (simp_all add: nullish_def)

lemma stat_of_element_error:
  "(\<exists>e. stat_of_element env s = Inl e) =
     (nullish s \<or> (\<exists>e. js_String env (coalesce (opt_prop s (lit ''label'')) (JStr [])) = Inl e))"
proof (cases "get_prop s (lit ''label'')")
  case (Inl e)
  then show ?thesis using get_prop_error[of s "lit ''label''"] by (auto simp: stat_of_element_def)
next
  case (Inr l)
  then have "\<not> nullish s" using get_prop_error[of s "lit ''label''"] by auto
  with Inr show ?thesis
    by (auto simp: stat_of_element_def opt_prop_def split: sum.splits)
qed

text \<open>
  Where the normalization returns and where it throws: an object and every
  value that is not an array give a list; an array throws exactly when one of
  its elements is null or undefined, or has a label whose conversion to a
  string throws.
\<close>

lemma StatsSummary_not_array: "\<forall>xs. data \<noteq> JArr xs \<Longrightarrow> \<exists>ss. StatsSummary env data = Inr ss"
  by (cases data) (simp_all add: StatsSummary_def)

lemma StatsSummary_array_error:
  "(\<exists>e. StatsSummary env (JArr xs) = Inl e) =
     (\<exists>s\<in>set xs. nullish s
        \<or> (\<exists>e. js_String env (coalesce (opt_prop s (lit ''label'')) (JStr [])) = Inl e))"
  by (simp add: StatsSummary_def map_throwing_error stat_of_element_error)

text \<open>
  C10 at the array whose one element is null (the metrics \<^verbatim>\<open>[null]\<close> of a
  response): the map reads \<^verbatim>\<open>s.label\<close> of null, and the component throws
  instead of drawing.
\<close>

theorem StatsSummary_null_element: "StatsSummary env (JArr [JNull]) = Inl TypeError"
  by (simp add: StatsSummary_def stat_of_element_def)

section \<open>Properties of the pie split\<close>

lemma shares_sum:
  assumes "0 < a + i"
  shows "(of_nat (100 * a) / of_nat (a + i) :: rat) + of_nat (100 * i) / of_nat (a + i) = 100"
proof -
  define t :: rat where "t = of_nat (a + i)"
  have t: "0 < t" unfolding t_def using assms by (simp only: of_nat_0_less_iff)
  have "(of_nat (100 * a) :: rat) + of_nat (100 * i) = 100 * t"
    by (simp add: t_def)
  then have "(of_nat (100 * a) / t :: rat) + of_nat (100 * i) / t = 100 * t / t"
    by (simp only: add_divide_distrib[symmetric])
  also have "\<dots> = 100" using t by simp
  finally show ?thesis unfolding t_def .
qed

lemma larger_share:
  assumes "0 < a + i" "i \<le> a"
  shows "(50 :: rat) \<le> of_nat (100 * a) / of_nat (a + i)"
proof -
  define t :: rat where "t = of_nat (a + i)"
  have t: "0 < t" unfolding t_def using assms(1) by (simp only: of_nat_0_less_iff)
  have "50 * (a + i) \<le> 100 * a" using assms(2) by simp
  then have "(of_nat (50 * (a + i)) :: rat) \<le> of_nat (100 * a)"
    by (simp only: of_nat_le_iff)
  then have "50 * t \<le> of_nat (100 * a)" by (simp add: t_def)
  then have "50 \<le> of_nat (100 * a) / t" using t by (simp only: pos_le_divide_eq)
  then show ?thesis unfolding t_def .
qed

text \<open>
  C2.  For a split that is not empty and a rounding that misses its argument by
  less than 1 (floor, ceiling, nearest), the two values of \<^verbatim>\<open>pieSeries\<close> sum
  to exactly 100; before the remainder is given out the rounded shares miss 100
  by 1 at most; neither value is negative; and equal counts give 50/50, so that the
  choice made for a tie never shows.  The component draws the series
  as it comes, and its built-in split is the series 72/28.
\<close>

theorem pieSeries_sums_to_100:
  assumes "0 < active + inactive" and "\<forall>x. \<bar>of_int (rnd x) - x\<bar> < 1"
  shows "fst (pieSeries rnd active inactive) + snd (pieSeries rnd active inactive) = 100
    \<and> \<bar>rounding_remainder rnd active inactive\<bar> \<le> 1
    \<and> 0 \<le> fst (pieSeries rnd active inactive) \<and> 0 \<le> snd (pieSeries rnd active inactive)
    \<and> safePieData (JObj [(lit ''pieData'', pie_entries (pieSeries rnd active inactive))])
        = Inr (pie_entries (pieSeries rnd active inactive))
    \<and> (active = inactive \<longrightarrow> pieSeries rnd active inactive = (50, 50))
    \<and> pieData = pie_entries (72, 28)"
proof -
  define x :: rat where "x = of_nat (100 * active) / of_nat (active + inactive)"
  define y :: rat where "y = of_nat (100 * inactive) / of_nat (active + inactive)"
  define a where "a = rnd x"
  define i where "i = rnd y"
  define r where "r = 100 - (a + i)"
  have xy: "x + y = 100" unfolding x_def y_def using assms(1) by (rule shares_sum)
  have x0: "0 \<le> x" and y0: "0 \<le> y" by (simp_all add: x_def y_def)
  have ax: "\<bar>of_int a - x\<bar> < 1" and iy: "\<bar>of_int i - y\<bar> < 1"
    using assms(2) by (simp_all add: a_def i_def)
  have "\<bar>of_int (a + i) - (100 :: rat)\<bar> < 2"
    using ax iy xy by (simp add: abs_less_iff; linarith)
  then have "\<bar>(of_int (a + i - 100) :: rat)\<bar> < of_int 2" by simp
  then have "\<bar>a + i - 100\<bar> < 2"
    by (simp only: of_int_abs[symmetric] of_int_less_iff)
  then have r1: "\<bar>r\<bar> \<le> 1" by (simp add: r_def)
  have a0: "0 \<le> a"
  proof -
    have "(-1 :: rat) < of_int a" using ax x0 by (simp add: abs_less_iff; linarith)
    then have "(of_int (-1) :: rat) < of_int a" by simp
    then have "-1 < a" by (simp only: of_int_less_iff)
    then show ?thesis by simp
  qed
  have i0: "0 \<le> i"
  proof -
    have "(-1 :: rat) < of_int i" using iy y0 by (simp add: abs_less_iff; linarith)
    then have "(of_int (-1) :: rat) < of_int i" by simp
    then have "-1 < i" by (simp only: of_int_less_iff)
    then show ?thesis by simp
  qed
  have big: "49 < b" if "\<bar>of_int b - z\<bar> < 1" "(50 :: rat) \<le> z" for b :: int and z :: rat
  proof -
    have "(49 :: rat) < of_int b" using that by (simp add: abs_less_iff; linarith)
    then have "(of_int 49 :: rat) < of_int b" by simp
    then show ?thesis by (simp only: of_int_less_iff)
  qed
  have p: "pieSeries rnd active inactive = (if inactive \<le> active then (a + r, i) else (a, i + r))"
    by (simp add: pieSeries_def rounding_remainder_def percentage_def Let_def
        a_def i_def r_def x_def y_def)
  have rr: "rounding_remainder rnd active inactive = r"
    by (simp add: rounding_remainder_def percentage_def a_def i_def r_def x_def y_def)
  have sum: "fst (pieSeries rnd active inactive) + snd (pieSeries rnd active inactive) = 100"
    by (simp add: p r_def)
  have nonneg: "0 \<le> fst (pieSeries rnd active inactive) \<and> 0 \<le> snd (pieSeries rnd active inactive)"
  proof (cases "inactive \<le> active")
    case True
    then have "49 < a"
      using big[OF ax] larger_share[OF assms(1) True] by (simp add: x_def)
    with True r1 i0 show ?thesis by (simp add: p)
  next
    case False
    then have "active \<le> inactive" by simp
    then have "49 < i"
      using big[OF iy] larger_share[of inactive active] assms(1) by (simp add: y_def add.commute)
    with False r1 a0 show ?thesis by (simp add: p)
  qed
  have drawn: "safePieData (JObj [(lit ''pieData'', pie_entries (pieSeries rnd active inactive))])
        = Inr (pie_entries (pieSeries rnd active inactive))"
    by (simp add: safePieData_def safe_or_def pie_entries_def)
  have demo: "pieData = pie_entries (72, 28)"
    by (simp add: pieData_def pie_entries_def)
  have tie: "active = inactive \<longrightarrow> pieSeries rnd active inactive = (50, 50)"
  proof
    assume eq: "active = inactive"
    then have "0 < active" using assms(1) by simp
    then have "x = 50" "y = 50" using eq by (simp_all add: x_def y_def)
    then have "\<bar>(of_int (a - 50) :: rat)\<bar> < of_int 1" "\<bar>(of_int (i - 50) :: rat)\<bar> < of_int 1"
      using ax iy by simp_all
    then have "\<bar>a - 50\<bar> < 1" "\<bar>i - 50\<bar> < 1"
      by (simp_all only: of_int_abs[symmetric] of_int_less_iff)
    then have "a = 50" "i = 50" by simp_all
    then show "pieSeries rnd active inactive = (50, 50)"
      unfolding p by (simp add: r_def)
  qed
  from sum r1 rr nonneg drawn tie demo show ?thesis by simp
qed

theorem pieSeries_sums_to_100_witness:
  "pieSeries floor 1 2 = (33, 67) \<and> rounding_remainder floor 1 2 = 1
   \<and> fst (pieSeries floor 1 2) + snd (pieSeries floor 1 2) = 100
   \<and> pieSeries floor 1 1 = (50, 50)"
proof -
  have "\<bar>of_int (floor x) - x\<bar> < 1" for x :: rat
    using floor_correct[of x] by (simp add: abs_less_iff; linarith)
  then have rnd: "\<forall>x :: rat. \<bar>of_int (floor x) - x\<bar> < 1" by blast
  have "(0 :: nat) < 1 + 2" by simp
  from pieSeries_sums_to_100[OF this rnd]
  have "fst (pieSeries floor 1 2) + snd (pieSeries floor 1 2) = 100" by blast
  moreover have fl: "\<lfloor>100 / 3 :: rat\<rfloor> = 33" "\<lfloor>200 / 3 :: rat\<rfloor> = 66"
    "\<lfloor>100 / 2 :: rat\<rfloor> = 50"
    by (rule floor_unique; simp)+
  have "pieSeries floor 1 2 = (33, 67)" "rounding_remainder floor 1 2 = 1"
    "pieSeries floor 1 1 = (50, 50)"
    by (simp_all add: pieSeries_def rounding_remainder_def percentage_def Let_def fl)
  ultimately show ?thesis by simp
qed

end
